theory Spec2Isabelle
  imports Main "HOL-Library.Word" "HOL-Library.AList"
begin

section \<open>Strings\<close>

text \<open>
  A JavaScript string is a sequence of 16-bit code units. The string methods the
  interpreter uses (\<^verbatim>\<open>trim\<close>, \<^verbatim>\<open>split\<close>, \<^verbatim>\<open>startsWith\<close>, \<^verbatim>\<open>join("")\<close>) work on code
  units; only \<^verbatim>\<open>segment\<close> works on grapheme clusters.
\<close>

type_synonym jsstring = "16 word list"

text \<open>The string literals of the source, as UTF-16 code units.\<close>

definition ASSIGN :: jsstring where
  "ASSIGN = [0xD83D, 0xDC49]"

definition PRINT :: jsstring where
  "PRINT = [0xD83D, 0xDDE3, 0xFE0F]"

definition COND :: jsstring where
  "COND = [0x2753]"

definition ARROW :: jsstring where
  "ARROW = [0x25B6, 0xFE0F]"

definition EQUALS :: jsstring where
  "EQUALS = [0xD83D, 0xDFF0]"

definition CONCAT :: jsstring where
  "CONCAT = [0x2795]"

definition FN_MARK :: jsstring where
  "FN_MARK = [0xD83D, 0xDD27]"

definition STMT_SEP :: jsstring where
  "STMT_SEP = [0xD83E, 0xDEF7]"

text \<open>The literal \<^verbatim>\<open>"unknown"\<close> of \<^verbatim>\<open>varMap.get(fnName ?? "unknown")\<close>.\<close>

definition unknown :: jsstring where
  "unknown = [0x75, 0x6E, 0x6B, 0x6E, 0x6F, 0x77, 0x6E]"

text \<open>
  \<^verbatim>\<open>String.prototype.trim\<close> removes the code units of WhiteSpace and LineTerminator
  from both ends.
\<close>

definition is_ws :: "16 word \<Rightarrow> bool" where
  "is_ws c \<longleftrightarrow>
     c = 0x9 \<or> c = 0xA \<or> c = 0xB \<or> c = 0xC \<or> c = 0xD \<or> c = 0x20 \<or> c = 0xA0 \<or>
     c = 0x1680 \<or> (0x2000 \<le> c \<and> c \<le> 0x200A) \<or> c = 0x2028 \<or> c = 0x2029 \<or>
     c = 0x202F \<or> c = 0x205F \<or> c = 0x3000 \<or> c = 0xFEFF"

definition trim :: "jsstring \<Rightarrow> jsstring" where
  "trim s = rev (dropWhile is_ws (rev (dropWhile is_ws s)))"

definition startsWith :: "jsstring \<Rightarrow> jsstring \<Rightarrow> bool" where
  "startsWith s p \<longleftrightarrow> take (length p) s = p"

text \<open>
  \<^verbatim>\<open>s.split(sep)\<close>: the pieces of \<open>s\<close> between the occurrences of \<open>sep\<close>, found left
  to right without overlap; the empty string splits into one empty piece. (An
  empty separator splits into single code units; the source never passes one.)
\<close>

function split_loop :: "jsstring \<Rightarrow> jsstring \<Rightarrow> jsstring \<Rightarrow> jsstring list" where
  "split_loop sep acc [] = [acc]"
| "split_loop sep acc (c # cs) =
     (if sep \<noteq> [] \<and> startsWith (c # cs) sep
      then acc # split_loop sep [] (drop (length sep) (c # cs))
      else split_loop sep (acc @ [c]) cs)"
  by pat_completeness auto
termination
  by (relation "measure (\<lambda>(sep, acc, s). length s)") auto

definition split :: "jsstring \<Rightarrow> jsstring \<Rightarrow> jsstring list" where
  "split s sep = (if sep = [] then map (\<lambda>c. [c]) s else split_loop sep [] s)"

text \<open>\<^verbatim>\<open>Array.prototype.indexOf\<close>: the first index holding \<open>x\<close>; \<open>None\<close> is \<open>-1\<close>.\<close>

fun indexOf :: "'a list \<Rightarrow> 'a \<Rightarrow> nat option" where
  "indexOf [] x = None"
| "indexOf (y # ys) x = (if y = x then Some 0 else map_option Suc (indexOf ys x))"

text \<open>\<^verbatim>\<open>xs.slice(a, b)\<close> for indices \<open>0 \<le> a\<close>, \<open>0 \<le> b\<close>: empty when \<open>b \<le> a\<close>.\<close>

definition slice :: "'a list \<Rightarrow> nat \<Rightarrow> nat \<Rightarrow> 'a list" where
  "slice xs a b = take (b - a) (drop a xs)"

subsection \<open>Grapheme segmentation\<close>

text \<open>
  \<^verbatim>\<open>segment\<close> calls the host's \<^verbatim>\<open>Intl.Segmenter\<close>, which is not code of this
  program. Every function that segments takes the segmenter as its first argument
  \<open>seg\<close>, and the theorems hold for every segmenter.
\<close>

type_synonym segmenter = "jsstring \<Rightarrow> jsstring list"

text \<open>
  A concrete segmenter, used only to evaluate the program on concrete lines. It
  covers the part of Unicode's cluster rules that the program's own symbols need:
  a surrogate pair is one code point, and variation selectors, the zero-width
  joiner and combining diacritics extend the cluster before them. On printable
  ASCII and the eight symbols it agrees with the host's segmenter. It is not the
  host's segmenter elsewhere: it splits the sequences the host keeps as one
  cluster by other rules (emoji with a modifier, pictographs joined by the
  zero-width joiner, regional indicator pairs, keycaps, CR LF).
\<close>

definition is_high :: "16 word \<Rightarrow> bool" where
  "is_high c \<longleftrightarrow> 0xD800 \<le> c \<and> c \<le> 0xDBFF"

definition is_low :: "16 word \<Rightarrow> bool" where
  "is_low c \<longleftrightarrow> 0xDC00 \<le> c \<and> c \<le> 0xDFFF"

definition is_extend :: "16 word \<Rightarrow> bool" where
  "is_extend c \<longleftrightarrow>
     (0xFE00 \<le> c \<and> c \<le> 0xFE0F) \<or> c = 0x200D \<or> (0x300 \<le> c \<and> c \<le> 0x36F)"

function segment :: segmenter where
  "segment [] = []"
| "segment (c # cs) =
     (if is_high c \<and> cs \<noteq> [] \<and> is_low (hd cs)
      then ([c, hd cs] @ takeWhile is_extend (tl cs)) # segment (dropWhile is_extend (tl cs))
      else ([c] @ takeWhile is_extend cs) # segment (dropWhile is_extend cs))"
  by pat_completeness auto
termination
  by (relation "measure length")
    (auto simp: less_Suc_eq_le length_dropWhile_le intro: le_trans [OF length_dropWhile_le])

section \<open>Values and the scoped environment\<close>

record fn_value =
  argNames :: "jsstring list"
  body :: "jsstring list"

text \<open>\<^verbatim>\<open>type VarValue = string | FnValue\<close>\<close>

datatype var_value = Str jsstring | Fn fn_value

text \<open>
  \<^verbatim>\<open>class ScopedMap\<close> has two fields. \<^verbatim>\<open>local\<close> is declared as a \<^verbatim>\<open>ScopedMap\<close> and
  defaults to a \<^verbatim>\<open>Map\<close>: it is a \<^verbatim>\<open>Map\<close> after \<^verbatim>\<open>createChild()\<close> and
  \<^verbatim>\<open>new ScopedMap()\<close>, and the enclosing \<^verbatim>\<open>ScopedMap\<close> after \<^verbatim>\<open>new ScopedMap(varMap)\<close>
  (the conditional). \<^verbatim>\<open>parent\<close> is optional. A \<^verbatim>\<open>Map\<close> is an association list in
  insertion order.

  The objects are mutated in place. A scope is reachable only through the scope
  below it while that one runs, and the caller does nothing until the callee
  returns, so the model keeps the enclosing scope inside the child, updates it
  there, and the caller reads it back when the callee returns.
\<close>

datatype scoped_map = ScopedMap (local_of: local_store) (parent: "scoped_map option")
  and local_store = LocalMap "(jsstring \<times> var_value) list" | LocalScoped scoped_map

fun has :: "scoped_map \<Rightarrow> jsstring \<Rightarrow> bool"
  and local_has :: "local_store \<Rightarrow> jsstring \<Rightarrow> bool" where
  "has (ScopedMap l p) key =
     (local_has l key \<or> (case p of None \<Rightarrow> False | Some q \<Rightarrow> has q key))"
| "local_has (LocalMap m) key = (key \<in> fst ` set m)"
| "local_has (LocalScoped s) key = has s key"

fun get :: "scoped_map \<Rightarrow> jsstring \<Rightarrow> var_value option"
  and local_get :: "local_store \<Rightarrow> jsstring \<Rightarrow> var_value option" where
  "get (ScopedMap l p) key =
     (if local_has l key then local_get l key
      else (case p of None \<Rightarrow> None | Some q \<Rightarrow> get q key))"
| "local_get (LocalMap m) key = map_of m key"
| "local_get (LocalScoped s) key = get s key"

text \<open>\<^verbatim>\<open>ScopedMap.set\<close>; the result is the mutated object.\<close>

fun set_var :: "scoped_map \<Rightarrow> jsstring \<Rightarrow> var_value \<Rightarrow> scoped_map"
  and local_set :: "local_store \<Rightarrow> jsstring \<Rightarrow> var_value \<Rightarrow> local_store" where
  "set_var (ScopedMap l p) key v =
     (if local_has l key \<or> p = None then ScopedMap (local_set l key v) p
      else ScopedMap l (map_option (\<lambda>q. set_var q key v) p))"
| "local_set (LocalMap m) key v = LocalMap (AList.update key v m)"
| "local_set (LocalScoped s) key v = LocalScoped (set_var s key v)"

definition createChild :: "scoped_map \<Rightarrow> scoped_map" where
  "createChild this = ScopedMap (LocalMap []) (Some this)"

section \<open>The value resolver\<close>

text \<open>
  The \<^verbatim>\<open>while\<close> loop of \<^verbatim>\<open>resolveValue\<close> on the variable \<^verbatim>\<open>val\<close>
  (\<open>None\<close> is \<^verbatim>\<open>undefined\<close>). The loop may run forever; the outer \<open>option\<close> is
  \<open>None\<close> exactly then.
\<close>

partial_function (option) resolve_loop ::
  "scoped_map \<Rightarrow> var_value option \<Rightarrow> var_value option option" where
  "resolve_loop varMap val =
     (case val of
        Some (Str s) \<Rightarrow> if has varMap s then resolve_loop varMap (get varMap s) else Some val
      | _ \<Rightarrow> Some val)"

declare resolve_loop.simps [code]

definition resolveValue :: "jsstring \<Rightarrow> scoped_map \<Rightarrow> jsstring option" where
  "resolveValue name varMap =
     map_option (\<lambda>val. case val of Some (Str s) \<Rightarrow> s | _ \<Rightarrow> name)
       (resolve_loop varMap (get varMap name))"

section \<open>Expressions\<close>

text \<open>
  \<^verbatim>\<open>parseConcat\<close>: \<open>None\<close> when resolving a part does not return.
\<close>

definition parseConcat_part :: "segmenter \<Rightarrow> scoped_map \<Rightarrow> jsstring \<Rightarrow> jsstring option" where
  "parseConcat_part seg varMap part =
     (let chars = seg (trim part)
      in if length chars = 1 then resolveValue (hd chars) varMap else Some part)"

definition parseConcat :: "segmenter \<Rightarrow> jsstring \<Rightarrow> scoped_map \<Rightarrow> jsstring option" where
  "parseConcat seg raw varMap =
     map_option concat (those (map (parseConcat_part seg varMap) (split raw CONCAT)))"

text \<open>
  The errors the source throws, by message:
  \<^item> \<^verbatim>\<open>Function definition missing <ARROW>\<close>
  \<^item> \<^verbatim>\<open>Missing <ARROW> in conditional\<close>
  \<^item> \<^verbatim>\<open>Missing <EQUALS> in conditional\<close>
  \<^item> \<^verbatim>\<open>Function '<fnName>' takes no args but got some\<close>, with \<^verbatim>\<open>fnName\<close> possibly \<^verbatim>\<open>undefined\<close>
  \<^item> \<^verbatim>\<open>Unknown syntax or function call: <trimmed>\<close>
\<close>

datatype error =
    MalformedFunctionLiteral
  | MalformedConditionalArrow
  | MalformedConditionalEquals
  | ArityMismatch "jsstring option"
  | UnresolvedStatement jsstring

text \<open>\<^verbatim>\<open>createFn\<close>: \<open>Inr None\<close> is the result \<^verbatim>\<open>false\<close>, \<open>Inl\<close> the thrown error.\<close>

definition createFn :: "segmenter \<Rightarrow> jsstring \<Rightarrow> error + fn_value option" where
  "createFn seg raw =
     (let chars = seg raw
      in if startsWith raw FN_MARK \<or> startsWith raw ARROW then
           (case indexOf chars ARROW of
              None \<Rightarrow> Inl MalformedFunctionLiteral
            | Some arrowIndex \<Rightarrow>
                Inr (Some \<lparr>argNames = slice chars 1 arrowIndex,
                           body = split (concat (drop (arrowIndex + 1) chars)) STMT_SEP\<rparr>))
         else Inr None)"

section \<open>Statements\<close>

text \<open>The three entries of the \<^verbatim>\<open>tokens\<close> array, in its order.\<close>

datatype token = Assign | Print | Cond

fun token_text :: "token \<Rightarrow> jsstring" where
  "token_text Assign = ASSIGN"
| "token_text Print = PRINT"
| "token_text Cond = COND"

definition tokens :: "token list" where
  "tokens = [Assign, Print, Cond]"

record ast_node =
  node_type :: jsstring
  node_token :: token
  args :: "jsstring list"

text \<open>The \<^verbatim>\<open>for\<close> loop of \<^verbatim>\<open>parseLine\<close>, from index \<open>i\<close>.\<close>

function parseLine_loop :: "jsstring list \<Rightarrow> nat \<Rightarrow> ast_node option" where
  "parseLine_loop chars i =
     (if i < length chars then
        (case find (\<lambda>t. token_text t = chars ! i) tokens of
           Some t \<Rightarrow>
             (let before_i = trim (concat (slice chars 0 i));
                  after = drop (i + 1) chars
              in Some \<lparr>node_type = token_text t, node_token = t,
                       args = (if token_text t = ASSIGN then [before_i, trim (concat after)]
                               else after)\<rparr>)
         | None \<Rightarrow> parseLine_loop chars (i + 1))
      else None)"
  by pat_completeness auto
termination
  by (relation "measure (\<lambda>(chars, i). length chars - i)") auto

definition parseLine :: "segmenter \<Rightarrow> jsstring \<Rightarrow> ast_node option" where
  "parseLine seg line = parseLine_loop (seg line) 0"

section \<open>The interpreter\<close>

text \<open>
  The state of a run: the environment \<^verbatim>\<open>varMap\<close> and the lines written by
  \<^verbatim>\<open>console.log\<close>. A step gives \<open>None\<close> when it does not return, \<open>Some (Inl (e, out))\<close>
  when it throws \<open>e\<close> after the lines \<open>out\<close> were written, and \<open>Some (Inr st)\<close>
  when it returns. (\<^verbatim>\<open>logVerbose\<close> writes to another stream and changes nothing
  else; it is left out.)
\<close>

record interp_state =
  varMap :: scoped_map
  console :: "jsstring list"

type_synonym result = "((error \<times> jsstring list) + interp_state) option"

text \<open>\<open>runner\<close> is \<^verbatim>\<open>interpret\<close> as the statements call it for a nested body.\<close>

type_synonym runner = "jsstring list \<Rightarrow> interp_state \<Rightarrow> result"

definition evaluate_assign :: "segmenter \<Rightarrow> jsstring list \<Rightarrow> interp_state \<Rightarrow> result" where
  "evaluate_assign seg as st =
     (case as of
        name # valueRaw # _ \<Rightarrow>
          if name = [] \<or> valueRaw = [] then Some (Inr st)
          else
            (case createFn seg valueRaw of
               Inl e \<Rightarrow> Some (Inl (e, console st))
             | Inr (Some fn) \<Rightarrow> Some (Inr (st\<lparr>varMap := set_var (varMap st) name (Fn fn)\<rparr>))
             | Inr None \<Rightarrow>
                 (case parseConcat seg valueRaw (varMap st) of
                    None \<Rightarrow> None
                  | Some resolved \<Rightarrow>
                      Some (Inr (st\<lparr>varMap := set_var (varMap st) name (Str resolved)\<rparr>))))
      | _ \<Rightarrow> Some (Inr st))"

definition evaluate_print :: "segmenter \<Rightarrow> jsstring list \<Rightarrow> interp_state \<Rightarrow> result" where
  "evaluate_print seg as st =
     (case parseConcat seg (concat as) (varMap st) of
        None \<Rightarrow> None
      | Some text \<Rightarrow> Some (Inr (st\<lparr>console := console st @ [text]\<rparr>)))"

text \<open>
  The conditional runs its block on \<^verbatim>\<open>new ScopedMap(varMap)\<close>: a scope whose
  \<^verbatim>\<open>local\<close> is the current environment and that has no parent. When the block
  returns, the current environment is the \<^verbatim>\<open>local\<close> of that scope.
\<close>

definition after_block :: "scoped_map \<Rightarrow> scoped_map \<Rightarrow> scoped_map" where
  "after_block entered scoped =
     (case local_of scoped of LocalScoped vm \<Rightarrow> vm | LocalMap _ \<Rightarrow> entered)"

definition evaluate_cond :: "segmenter \<Rightarrow> runner \<Rightarrow> jsstring list \<Rightarrow> interp_state \<Rightarrow> result" where
  "evaluate_cond seg run as st =
     (let chars = seg (concat as) in
      case indexOf chars ARROW of
        None \<Rightarrow> Some (Inl (MalformedConditionalArrow, console st))
      | Some arrowIndex \<Rightarrow>
          (let condition = trim (concat (slice chars 0 arrowIndex));
               bodyStr = trim (concat (drop (arrowIndex + 1) chars));
               conditionSeg = seg condition in
           case indexOf conditionSeg EQUALS of
             None \<Rightarrow> Some (Inl (MalformedConditionalEquals, console st))
           | Some eqIndex \<Rightarrow>
               (case parseConcat seg (concat (slice conditionSeg 0 eqIndex)) (varMap st) of
                  None \<Rightarrow> None
                | Some lhs \<Rightarrow>
                    (case parseConcat seg (concat (drop (eqIndex + 1) conditionSeg)) (varMap st) of
                       None \<Rightarrow> None
                     | Some rhs \<Rightarrow>
                         if lhs = rhs then
                           (case createFn seg (ARROW @ bodyStr) of
                              Inl e \<Rightarrow> Some (Inl (e, console st))
                            | Inr (Some fn) \<Rightarrow>
                                if argNames fn = [] then
                                  (case run (body fn)
                                          (st\<lparr>varMap := ScopedMap (LocalScoped (varMap st)) None\<rparr>) of
                                     None \<Rightarrow> None
                                   | Some (Inl e) \<Rightarrow> Some (Inl e)
                                   | Some (Inr st') \<Rightarrow>
                                       Some (Inr (st'\<lparr>varMap := after_block (varMap st) (varMap st')\<rparr>)))
                                else Some (Inr st)
                            | Inr None \<Rightarrow> Some (Inr st))
                         else Some (Inr st)))))"

text \<open>\<^verbatim>\<open>ast.token.evaluate(ast, varMap)\<close>\<close>

fun evaluate :: "segmenter \<Rightarrow> runner \<Rightarrow> token \<Rightarrow> jsstring list \<Rightarrow> interp_state \<Rightarrow> result" where
  "evaluate seg run Assign as st = evaluate_assign seg as st"
| "evaluate seg run Print as st = evaluate_print seg as st"
| "evaluate seg run Cond as st = evaluate_cond seg run as st"

text \<open>
  \<^verbatim>\<open>fnValue.argNames.forEach((arg, i) => scoped.set(arg, argsPassed[i] || ""))\<close>,
  from index \<open>i\<close>.
\<close>

fun bind_args :: "jsstring list \<Rightarrow> jsstring list \<Rightarrow> nat \<Rightarrow> scoped_map \<Rightarrow> scoped_map" where
  "bind_args [] argsPassed i scoped = scoped"
| "bind_args (arg # rest) argsPassed i scoped =
     bind_args rest argsPassed (i + 1)
       (set_var scoped arg (Str (if i < length argsPassed then argsPassed ! i else [])))"

text \<open>
  When the call returns, the caller's environment is the parent of the scope the
  body ran on.
\<close>

definition after_call :: "scoped_map \<Rightarrow> scoped_map \<Rightarrow> scoped_map" where
  "after_call entered scoped = (case parent scoped of Some vm \<Rightarrow> vm | None \<Rightarrow> entered)"

text \<open>
  The function-call branch of \<^verbatim>\<open>interpret\<close>, for a name bound to the function value
  \<open>fnValue\<close>, called with the clusters \<open>argsPassed\<close>.
\<close>

definition call_fn ::
  "runner \<Rightarrow> jsstring option \<Rightarrow> fn_value \<Rightarrow> jsstring list \<Rightarrow> interp_state \<Rightarrow> result" where
  "call_fn run fnName fnValue argsPassed st =
     (if argNames fnValue = [] \<and> argsPassed \<noteq> [] then
        Some (Inl (ArityMismatch fnName, console st))
      else
        (let scoped = bind_args (argNames fnValue) argsPassed 0 (createChild (varMap st)) in
         case run (body fnValue) (st\<lparr>varMap := scoped\<rparr>) of
           None \<Rightarrow> None
         | Some (Inl e) \<Rightarrow> Some (Inl e)
         | Some (Inr st') \<Rightarrow> Some (Inr (st'\<lparr>varMap := after_call (varMap st) (varMap st')\<rparr>))))"

text \<open>The body of the \<^verbatim>\<open>for\<close> loop of \<^verbatim>\<open>interpret\<close>, for one line.\<close>

definition interpret_line :: "segmenter \<Rightarrow> runner \<Rightarrow> jsstring \<Rightarrow> interp_state \<Rightarrow> result" where
  "interpret_line seg run line st =
     (let trimmed = trim line in
      if trimmed = [] then Some (Inr st)
      else
        (let ast = parseLine seg trimmed;
             chars = seg trimmed in
         case ast of
           Some node \<Rightarrow> evaluate seg run (node_token node) (args node) st
         | None \<Rightarrow>
             (let fnName = (case chars of [] \<Rightarrow> None | c # _ \<Rightarrow> Some c) in
              case get (varMap st) (case fnName of None \<Rightarrow> unknown | Some c \<Rightarrow> c) of
                Some (Fn fnValue) \<Rightarrow> call_fn run fnName fnValue (drop 1 chars) st
              | _ \<Rightarrow> Some (Inl (UnresolvedStatement trimmed, console st)))))"

fun interpret_lines :: "segmenter \<Rightarrow> runner \<Rightarrow> jsstring list \<Rightarrow> interp_state \<Rightarrow> result" where
  "interpret_lines seg run [] st = Some (Inr st)"
| "interpret_lines seg run (line # lines) st =
     (case interpret_line seg run line st of
        None \<Rightarrow> None
      | Some (Inl e) \<Rightarrow> Some (Inl e)
      | Some (Inr st') \<Rightarrow> interpret_lines seg run lines st')"

text \<open>
  \<^verbatim>\<open>interpret\<close> (the name is a keyword here, hence \<open>interpret_fn\<close>). A function
  of the language may call itself, so the recursion is bounded by \<open>fuel\<close>, the
  number of nested activations of \<^verbatim>\<open>interpret\<close> allowed; \<open>None\<close> when they do not
  suffice.
\<close>

primrec interpret_fn :: "segmenter \<Rightarrow> nat \<Rightarrow> jsstring list \<Rightarrow> interp_state \<Rightarrow> result" where
  "interpret_fn seg 0 lines st = None"
| "interpret_fn seg (Suc fuel) lines st = interpret_lines seg (interpret_fn seg fuel) lines st"

text \<open>\<^verbatim>\<open>interpret(lines)\<close> with the default \<^verbatim>\<open>new ScopedMap()\<close>.\<close>

definition initial_state :: interp_state where
  "initial_state = \<lparr>varMap = ScopedMap (LocalMap []) None, console = []\<rparr>"

section \<open>Notions used to state the properties\<close>

text \<open>
  The alias chain of the resolver: from a looked-up value that is text and a bound
  name, the chain goes on to the value of that name.
\<close>

inductive alias_chain :: "scoped_map \<Rightarrow> var_value option \<Rightarrow> var_value option \<Rightarrow> bool"
  for env :: scoped_map where
  chain_here: "alias_chain env val val"
| chain_follow: "has env s \<Longrightarrow> alias_chain env (get env s) val \<Longrightarrow>
     alias_chain env (Some (Str s)) val"

text \<open>The chain stops at a value that is not text, or is text that is not bound.\<close>

definition chain_end :: "scoped_map \<Rightarrow> var_value option \<Rightarrow> bool" where
  "chain_end env val = (case val of Some (Str s) \<Rightarrow> \<not> has env s | _ \<Rightarrow> True)"

text \<open>One step of an alias chain, as a relation on names.\<close>

definition alias_rel :: "scoped_map \<Rightarrow> (jsstring \<times> jsstring) set" where
  "alias_rel env = {(a, b). get env a = Some (Str b) \<and> has env b}"

text \<open>
  Two environments for the examples: \<open>{A: "B", B: <function>}\<close> and
  \<open>{A: "B", B: "hi"}\<close>.
\<close>

definition env_fn :: scoped_map where
  "env_fn =
     ScopedMap (LocalMap [([0x41], Str [0x42]), ([0x42], Fn \<lparr>argNames = [], body = [[]]\<rparr>)]) None"

definition env_text :: scoped_map where
  "env_text = ScopedMap (LocalMap [([0x41], Str [0x42]), ([0x42], Str [0x68, 0x69])]) None"

text \<open>An environment with a cycle of aliases: \<open>{A: "B", B: "A"}\<close>.\<close>

definition env_cycle :: scoped_map where
  "env_cycle = ScopedMap (LocalMap [([0x41], Str [0x42]), ([0x42], Str [0x41])]) None"

text \<open>
  The shape of an environment: which scopes it is made of, without their
  bindings. \<open>keeps_shape\<close> says that a run leaves the shape as it was.
\<close>

datatype skel = Skel lskel "skel option"
  and lskel = MapSkel | ScopedSkel skel

fun skel_of :: "scoped_map \<Rightarrow> skel"
  and lskel_of :: "local_store \<Rightarrow> lskel" where
  "skel_of (ScopedMap l p) = Skel (lskel_of l) (map_option skel_of p)"
| "lskel_of (LocalMap m) = MapSkel"
| "lskel_of (LocalScoped s) = ScopedSkel (skel_of s)"

definition keeps_shape :: "runner \<Rightarrow> bool" where
  "keeps_shape run \<longleftrightarrow>
     (\<forall>lines st st'. run lines st = Some (Inr st') \<longrightarrow> skel_of (varMap st') = skel_of (varMap st))"

text \<open>\<open>extends run run'\<close>: whatever \<open>run\<close> gives, \<open>run'\<close> gives too.\<close>

definition extends :: "runner \<Rightarrow> runner \<Rightarrow> bool" where
  "extends run run' \<longleftrightarrow> (\<forall>lines st r. run lines st = Some r \<longrightarrow> run' lines st = Some r)"

text \<open>\<^verbatim>\<open>xs.join(sep)\<close>, to say what \<^verbatim>\<open>split\<close> returns.\<close>

fun join :: "jsstring list \<Rightarrow> jsstring \<Rightarrow> jsstring" where
  "join [] sep = []"
| "join [x] sep = x"
| "join (x # y # ys) sep = x @ sep @ join (y # ys) sep"

text \<open>
  Two states for the examples. In \<open>state_zero\<close> the name \<open>F\<close> is bound to a function
  without parameters whose body prints \<open>Hi\<close>; in \<open>state_one\<close> it is bound to a
  function of the parameter \<open>P\<close> whose body prints \<open>P\<close>.
\<close>

definition state_zero :: interp_state where
  "state_zero =
     \<lparr>varMap = ScopedMap (LocalMap
        [([0x46], Fn \<lparr>argNames = [], body = [[0xD83D, 0xDDE3, 0xFE0F, 0x48, 0x69]]\<rparr>)]) None,
      console = []\<rparr>"


text \<open>
  In \<open>state_self\<close> the name \<open>F\<close> is bound to a function without parameters whose
  body is the line \<open>"FX"\<close>: a call of \<open>F\<close> itself with one argument.
\<close>

definition state_self :: interp_state where
  "state_self =
     \<lparr>varMap = ScopedMap (LocalMap
        [([0x46], Fn \<lparr>argNames = [], body = [[0x46, 0x58]]\<rparr>)]) None,
      console = []\<rparr>"

section \<open>Properties of the environment\<close>

lemma has_iff_get:
  "has s key \<longleftrightarrow> get s key \<noteq> None"
  "local_has l key \<longleftrightarrow> local_get l key \<noteq> None"
  by (induction s key and l key rule: get_local_get.induct)
    (auto simp: map_of_eq_None_iff split: option.splits)





section \<open>Properties of the resolver\<close>

lemma resolve_loop_chain:
  assumes "resolve_loop env val = Some val'"
  shows "alias_chain env val val' \<and> chain_end env val'"
proof (rule resolve_loop.raw_induct [OF _ assms])
  fix loop :: "scoped_map \<Rightarrow> var_value option \<Rightarrow> var_value option option"
  fix e v v'
  assume IH: "\<And>e v v'. loop e v = Some v' \<Longrightarrow> alias_chain e v v' \<and> chain_end e v'"
  assume step: "(case v of
        Some (Str s) \<Rightarrow> if has e s then loop e (get e s) else Some v
      | _ \<Rightarrow> Some v) = Some v'"
  show "alias_chain e v v' \<and> chain_end e v'"
  proof (cases "\<exists>s. v = Some (Str s) \<and> has e s")
    case True
    then obtain s where s: "v = Some (Str s)" "has e s" by blast
    with step have "loop e (get e s) = Some v'" by simp
    from IH [OF this] s show ?thesis by (auto intro: chain_follow)
  next
    case False
    with step have "v' = v"
      by (auto split: option.splits var_value.splits if_splits)
    with False show ?thesis
      by (auto simp: chain_end_def intro: chain_here split: option.splits var_value.splits)
  qed
qed

lemma chain_resolve_loop:
  "alias_chain env val val' \<Longrightarrow> chain_end env val' \<Longrightarrow> resolve_loop env val = Some val'"
proof (induction rule: alias_chain.induct)
  case (chain_here val)
  then show ?case
    by (subst resolve_loop.simps) (auto simp: chain_end_def split: option.splits var_value.splits)
next
  case (chain_follow s val)
  then show ?case by (subst resolve_loop.simps) simp
qed

lemma resolve_loop_iff:
  "resolve_loop env val = Some val' \<longleftrightarrow> alias_chain env val val' \<and> chain_end env val'"
  using resolve_loop_chain chain_resolve_loop by blast


text \<open>
  C4, as the spec states it, fails. In \<open>{A: "B", B: <function>}\<close> the chain from \<open>A\<close>
  stops at a function after the text \<open>"B"\<close>, and the result is the name \<open>A\<close>, not
  the last text \<open>"B"\<close>; and \<open>B\<close> resolves to itself although it is bound.
\<close>

theorem resolveValue_function_counterexample:
  "get env_fn [0x41] = Some (Str [0x42]) \<and>
   get env_fn [0x42] = Some (Fn \<lparr>argNames = [], body = [[]]\<rparr>) \<and>
   resolveValue [0x41] env_fn = Some [0x41] \<and>
   resolveValue [0x41] env_fn \<noteq> Some [0x42] \<and>
   resolveValue [0x42] env_fn = Some [0x42]"
  by (simp add: env_fn_def resolveValue_def resolve_loop.simps)

text \<open>
  C4, amended. \<open>resolveValue\<close> returns \<open>r\<close> exactly when the alias chain from the
  value of \<open>name\<close> stops at some value, and \<open>r\<close> is that value when it is text and
  the original \<open>name\<close> otherwise. So the result is the original name exactly when
  the chain stops at a value that is not text: the name is unbound, or the chain
  ends at a function.
\<close>

theorem resolveValue_chain:
  "(resolveValue name env = Some r \<longleftrightarrow>
      (\<exists>val. alias_chain env (get env name) val \<and> chain_end env val \<and>
             r = (case val of Some (Str s) \<Rightarrow> s | _ \<Rightarrow> name))) \<and>
   (alias_chain env (get env name) val \<and> chain_end env val \<longrightarrow>
      (resolveValue name env = Some name \<longleftrightarrow> (\<forall>s. val \<noteq> Some (Str s))))"
proof (intro conjI impI)
  show "resolveValue name env = Some r \<longleftrightarrow>
      (\<exists>val. alias_chain env (get env name) val \<and> chain_end env val \<and>
             r = (case val of Some (Str s) \<Rightarrow> s | _ \<Rightarrow> name))"
    by (auto simp: resolveValue_def resolve_loop_iff)
next
  assume c: "alias_chain env (get env name) val \<and> chain_end env val"
  then have "resolve_loop env (get env name) = Some val"
    by (simp add: chain_resolve_loop)
  then have r: "resolveValue name env = Some (case val of Some (Str s) \<Rightarrow> s | _ \<Rightarrow> name)"
    by (simp add: resolveValue_def)
  have "val \<noteq> Some (Str name)"
  proof
    assume v: "val = Some (Str name)"
    with c have "\<not> has env name" by (simp add: chain_end_def)
    then have "get env name = None" by (simp add: has_iff_get)
    with c have "val = None" by (auto elim: alias_chain.cases)
    with v show False by simp
  qed
  with r show "resolveValue name env = Some name \<longleftrightarrow> (\<forall>s. val \<noteq> Some (Str s))"
    by (auto split: option.splits var_value.splits)
qed


text \<open>
  In \<open>{A: "B", B: <function>}\<close> the chain from \<open>A\<close> stops at the function and the
  result is \<open>A\<close>; in \<open>{A: "B", B: "hi"}\<close> it stops at the text \<open>"hi"\<close>.
\<close>

theorem resolveValue_chain_witness:
  "alias_chain env_fn (get env_fn [0x41]) (Some (Fn \<lparr>argNames = [], body = [[]]\<rparr>)) \<and>
   resolveValue [0x41] env_fn = Some [0x41] \<and>
   alias_chain env_text (get env_text [0x41]) (Some (Str [0x68, 0x69])) \<and>
   resolveValue [0x41] env_text = Some [0x68, 0x69]"
proof -
  have "alias_chain env_fn (get env_fn [0x42]) (Some (Fn \<lparr>argNames = [], body = [[]]\<rparr>))"
    by (simp add: env_fn_def chain_here)
  then have c1: "alias_chain env_fn (get env_fn [0x41]) (Some (Fn \<lparr>argNames = [], body = [[]]\<rparr>))"
    using chain_follow [of env_fn "[0x42]"] by (simp add: env_fn_def)
  have e1: "chain_end env_fn (Some (Fn \<lparr>argNames = [], body = [[]]\<rparr>))"
    by (simp add: chain_end_def)
  have "alias_chain env_text (get env_text [0x42]) (Some (Str [0x68, 0x69]))"
    by (simp add: env_text_def chain_here)
  then have c2: "alias_chain env_text (get env_text [0x41]) (Some (Str [0x68, 0x69]))"
    using chain_follow [of env_text "[0x42]"] by (simp add: env_text_def)
  have e2: "chain_end env_text (Some (Str [0x68, 0x69]))"
    by (simp add: chain_end_def env_text_def)
  from c1 e1 c2 e2
    resolveValue_chain [of "[0x41]" env_fn "[0x41]" "Some (Fn \<lparr>argNames = [], body = [[]]\<rparr>)"]
    resolveValue_chain [of "[0x41]" env_text "[0x68, 0x69]" "Some (Str [0x68, 0x69])"]
  show ?thesis by auto
qed

lemma finite_bound:
  "finite {k. has s k}"
  "finite {k. local_has l k}"
proof (induction s and l)
  case (ScopedMap l p)
  have "{k. has (ScopedMap l p) k} =
      {k. local_has l k} \<union> (case p of None \<Rightarrow> {} | Some q \<Rightarrow> {k. has q k})"
    by (auto split: option.splits)
  with ScopedMap show ?case by (auto split: option.splits)
next
  case (LocalMap m)
  have "{k. local_has (LocalMap m) k} = fst ` set m" by auto
  then show ?case by simp
next
  case (LocalScoped s)
  then show ?case by simp
qed

lemma finite_alias_rel: "finite (alias_rel env)"
proof (rule finite_subset)
  show "alias_rel env \<subseteq> {k. has env k} \<times> {k. has env k}"
    by (auto simp: alias_rel_def has_iff_get)
  show "finite ({k. has env k} \<times> {k. has env k})"
    by (simp add: finite_bound)
qed

lemma resolve_loop_returns:
  assumes "acyclic (alias_rel env)"
  shows "\<exists>val'. resolve_loop env val = Some val'"
proof -
  from assms have wf: "wf ((alias_rel env)\<inverse>)"
    by (simp add: finite_acyclic_wf_converse finite_alias_rel)
  have on_text: "\<exists>val'. resolve_loop env (Some (Str s)) = Some val'" for s
  proof (induction s rule: wf_induct_rule [OF wf])
    case (1 s)
    show ?case
    proof (cases "has env s")
      case False
      then show ?thesis by (subst resolve_loop.simps) simp
    next
      case True
      then have unfold: "resolve_loop env (Some (Str s)) = resolve_loop env (get env s)"
        by (subst resolve_loop.simps) simp
      show ?thesis
      proof (cases "\<exists>t. get env s = Some (Str t) \<and> has env t")
        case True
        then obtain t where t: "get env s = Some (Str t)" "has env t" by blast
        then have "(t, s) \<in> (alias_rel env)\<inverse>" by (simp add: alias_rel_def)
        from 1 [OF this] unfold t show ?thesis by simp
      next
        case False
        then have "resolve_loop env (get env s) = Some (get env s)"
          by (subst resolve_loop.simps) (auto split: option.splits var_value.splits)
        with unfold show ?thesis by simp
      qed
    qed
  qed
  show ?thesis
  proof (cases "\<exists>s. val = Some (Str s)")
    case True
    with on_text show ?thesis by auto
  next
    case False
    then show ?thesis
      by (subst resolve_loop.simps) (auto split: option.splits var_value.splits)
  qed
qed

text \<open>
  C9. When the alias relation of the environment is acyclic, \<open>resolveValue\<close>
  returns for every name. (An environment binds finitely many names.)
\<close>

theorem resolveValue_terminates:
  "acyclic (alias_rel env) \<Longrightarrow> \<exists>r. resolveValue name env = Some r"
  using resolve_loop_returns [of env "get env name"] by (auto simp: resolveValue_def)

text \<open>In \<open>{A: "B", B: "hi"}\<close> the only alias step is from \<open>A\<close> to \<open>B\<close>.\<close>

theorem resolveValue_terminates_witness:
  "acyclic (alias_rel env_text) \<and> resolveValue [0x41] env_text = Some [0x68, 0x69]"
proof -
  have "alias_rel env_text = {([0x41], [0x42])}"
    by (auto simp: alias_rel_def env_text_def split: if_splits)
  then have a: "acyclic (alias_rel env_text)"
    by (simp add: acyclic_insert wf_acyclic)
  from resolveValue_terminates [OF a, of "[0x41]"]
  show ?thesis using a by (auto simp: resolveValue_def env_text_def resolve_loop.simps)
qed

text \<open>On a cycle of aliases the loop does not return.\<close>

lemma resolve_loop_cycle:
  "resolve_loop env_cycle (Some (Str s)) = None" if "s = [0x41] \<or> s = [0x42]"
proof (rule ccontr)
  assume "resolve_loop env_cycle (Some (Str s)) \<noteq> None"
  then obtain v' where r: "resolve_loop env_cycle (Some (Str s)) = Some v'" by auto
  have "\<not> (e = env_cycle \<and> (v = Some (Str [0x41]) \<or> v = Some (Str [0x42])))"
    if "resolve_loop e v = Some v'" for e v v'
  proof (rule resolve_loop.raw_induct [OF _ that])
    fix loop :: "scoped_map \<Rightarrow> var_value option \<Rightarrow> var_value option option"
    fix e v v'
    assume IH: "\<And>e v v'. loop e v = Some v' \<Longrightarrow>
        \<not> (e = env_cycle \<and> (v = Some (Str [0x41]) \<or> v = Some (Str [0x42])))"
    assume step: "(case v of
        Some (Str s) \<Rightarrow> if has e s then loop e (get e s) else Some v
      | _ \<Rightarrow> Some v) = Some v'"
    show "\<not> (e = env_cycle \<and> (v = Some (Str [0x41]) \<or> v = Some (Str [0x42])))"
    proof
      assume a: "e = env_cycle \<and> (v = Some (Str [0x41]) \<or> v = Some (Str [0x42]))"
      then show False
      proof (elim conjE disjE)
        assume "e = env_cycle" "v = Some (Str [0x41])"
        with step have "loop env_cycle (Some (Str [0x42])) = Some v'"
          by (simp add: env_cycle_def)
        from IH [OF this] show False by simp
      next
        assume "e = env_cycle" "v = Some (Str [0x42])"
        with step have "loop env_cycle (Some (Str [0x41])) = Some v'"
          by (simp add: env_cycle_def)
        from IH [OF this] show False by simp
      qed
    qed
  qed
  from this [OF r] that show False by simp
qed

lemma resolveValue_cycle: "resolveValue [0x41] env_cycle = None"
  using resolve_loop_cycle [of "[0x42]"] by (simp add: resolveValue_def env_cycle_def)

section \<open>Evaluation on concrete input\<close>

lemmas eval_defs = trim_def is_ws_def is_high_def is_low_def is_extend_def startsWith_def
  split_def slice_def ASSIGN_def PRINT_def COND_def ARROW_def EQUALS_def CONCAT_def FN_MARK_def
  STMT_SEP_def tokens_def

lemmas run_defs = interpret_line_def parseLine_def parseLine_loop.simps createFn_def
  evaluate_assign_def evaluate_print_def evaluate_cond_def parseConcat_def parseConcat_part_def
  resolveValue_def resolve_loop.simps call_fn_def createChild_def after_call_def after_block_def
  initial_state_def Let_def

section \<open>Properties of the concatenation parser\<close>

lemma split_loop_not_Nil: "split_loop sep acc s \<noteq> []"
  by (induction sep acc s rule: split_loop.induct) auto

lemma startsWith_append: "startsWith s p \<Longrightarrow> p @ drop (length p) s = s"
  unfolding startsWith_def by (metis append_take_drop_id)

lemma join_split_loop:
  "sep \<noteq> [] \<Longrightarrow> join (split_loop sep acc s) sep = acc @ s"
proof (induction sep acc s rule: split_loop.induct)
  case (1 sep acc)
  then show ?case by simp
next
  case (2 sep acc c cs)
  show ?case
  proof (cases "startsWith (c # cs) sep")
    case True
    obtain x xs where r: "split_loop sep [] (drop (length sep) (c # cs)) = x # xs"
      using split_loop_not_Nil by (cases "split_loop sep [] (drop (length sep) (c # cs))") auto
    from 2 True have "join (x # xs) sep = drop (length sep) (c # cs)"
      by (simp add: r)
    with True 2(3) r startsWith_append [OF True] show ?thesis by simp
  next
    case False
    with 2 show ?thesis by simp
  qed
qed

lemma join_split: "sep \<noteq> [] \<Longrightarrow> join (split s sep) sep = s"
  by (simp add: split_def join_split_loop)

lemma split_loop_unit_pieces:
  "x \<in> set (split_loop [c0] acc s) \<Longrightarrow> c0 \<notin> set acc \<Longrightarrow> c0 \<notin> set x"
proof (induction "[c0]" acc s rule: split_loop.induct)
  case (1 acc)
  then show ?case by simp
next
  case (2 acc c cs)
  then show ?case by (auto simp: startsWith_def split: if_splits)
qed

text \<open>
  C5, as the spec states it, fails: a part that is not one cluster is used as it
  is, with its surrounding white space. The raw string \<open>" ab"\<close> gives \<open>" ab"\<close>, not
  the trimmed \<open>"ab"\<close>.
\<close>

theorem parseConcat_untrimmed_counterexample:
  "trim [0x20, 0x61, 0x62] = [0x61, 0x62] \<and>
   length (segment (trim [0x20, 0x61, 0x62])) = 2 \<and>
   parseConcat segment [0x20, 0x61, 0x62] env_text = Some [0x20, 0x61, 0x62]"
  by (simp add: trim_def is_ws_def is_high_def is_low_def is_extend_def parseConcat_def
      parseConcat_part_def split_def CONCAT_def startsWith_def)

text \<open>
  C5, amended. \<open>parseConcat\<close> splits the raw string on the code unit of CONCAT (the
  parts joined by CONCAT give back the raw string, and no part holds that code
  unit). A part whose trimmed text is exactly one cluster is resolved as a name;
  any other part is used verbatim and untrimmed. The results are concatenated;
  there is no result when resolving a part does not return.
\<close>

theorem parseConcat_parts:
  "parseConcat seg raw env =
     map_option concat (those (map
       (\<lambda>part. if length (seg (trim part)) = 1 then resolveValue (hd (seg (trim part))) env
               else Some part)
       (split raw CONCAT))) \<and>
   join (split raw CONCAT) CONCAT = raw \<and>
   (\<forall>part \<in> set (split raw CONCAT). 0x2795 \<notin> set part)"
proof (intro conjI ballI)
  show "parseConcat seg raw env =
     map_option concat (those (map
       (\<lambda>part. if length (seg (trim part)) = 1 then resolveValue (hd (seg (trim part))) env
               else Some part)
       (split raw CONCAT)))"
    by (simp add: parseConcat_def parseConcat_part_def Let_def cong: map_cong)
  show "join (split raw CONCAT) CONCAT = raw"
    by (rule join_split) (simp add: CONCAT_def)
  fix part assume "part \<in> set (split raw CONCAT)"
  then show "0x2795 \<notin> set part"
    using split_loop_unit_pieces [of part "0x2795" "[]" raw] by (simp add: split_def CONCAT_def)
qed

text \<open>
  In \<open>{A: "B", B: "hi"}\<close> the raw string \<open>"A+ bb"\<close> (with CONCAT for \<open>+\<close>) gives
  \<open>"hi bb"\<close>.
\<close>

theorem parseConcat_parts_witness:
  "split [0x41, 0x2795, 0x20, 0x62, 0x62] CONCAT = [[0x41], [0x20, 0x62, 0x62]] \<and>
   parseConcat segment [0x41, 0x2795, 0x20, 0x62, 0x62] env_text = Some [0x68, 0x69, 0x20, 0x62, 0x62]"
  using parseConcat_parts [of segment "[0x41, 0x2795, 0x20, 0x62, 0x62]" env_text]
  by (simp add: trim_def is_ws_def is_high_def is_low_def is_extend_def
      split_def CONCAT_def startsWith_def resolveValue_def resolve_loop.simps env_text_def)


section \<open>Properties of the statement dispatcher\<close>

lemma find_token_text: "find (\<lambda>t. token_text t = token_text t0) tokens = Some t0"
  by (cases t0) (simp_all add: tokens_def ASSIGN_def PRINT_def COND_def)

lemma find_token_None:
  "find (\<lambda>t. token_text t = c) tokens = None \<longleftrightarrow> c \<noteq> ASSIGN \<and> c \<noteq> PRINT \<and> c \<noteq> COND"
  by (auto simp: tokens_def)

lemma find_token_Some:
  "find (\<lambda>t. token_text t = c) tokens = Some t \<Longrightarrow> c = token_text t"
  by (auto simp: tokens_def split: if_splits)

lemma token_text_Assign: "token_text t = ASSIGN \<longleftrightarrow> t = Assign"
  by (cases t) (simp_all add: ASSIGN_def PRINT_def COND_def)

lemma parseLine_loop_None:
  "parseLine_loop chars i = None \<longleftrightarrow>
     (\<forall>j. i \<le> j \<and> j < length chars \<longrightarrow>
        chars ! j \<noteq> ASSIGN \<and> chars ! j \<noteq> PRINT \<and> chars ! j \<noteq> COND)"
proof (induction chars i rule: parseLine_loop.induct)
  case (1 chars i)
  show ?case
  proof (cases "i < length chars")
    case False
    then show ?thesis by (subst parseLine_loop.simps) auto
  next
    case True
    show ?thesis
    proof (cases "find (\<lambda>t. token_text t = chars ! i) tokens")
      case None
      with True 1 have "parseLine_loop chars i = None \<longleftrightarrow>
          (\<forall>j. i + 1 \<le> j \<and> j < length chars \<longrightarrow>
             chars ! j \<noteq> ASSIGN \<and> chars ! j \<noteq> PRINT \<and> chars ! j \<noteq> COND)"
        by (subst parseLine_loop.simps) simp
      moreover from None have "chars ! i \<noteq> ASSIGN \<and> chars ! i \<noteq> PRINT \<and> chars ! i \<noteq> COND"
        by (simp add: find_token_None)
      ultimately show ?thesis
        by (metis Suc_eq_plus1 Suc_leI le_eq_less_or_eq Suc_le_lessD)
    next
      case (Some t)
      then have "chars ! i = token_text t" by (rule find_token_Some)
      then have "chars ! i = ASSIGN \<or> chars ! i = PRINT \<or> chars ! i = COND"
        by (cases t) simp_all
      moreover from True Some have "parseLine_loop chars i \<noteq> None"
        by (subst parseLine_loop.simps) (simp add: Let_def)
      ultimately show ?thesis using True by auto
    qed
  qed
qed

lemma parseLine_loop_Some:
  assumes "i < length chars" and "chars ! i = token_text t"
    and "\<forall>j. i0 \<le> j \<and> j < i \<longrightarrow> chars ! j \<noteq> ASSIGN \<and> chars ! j \<noteq> PRINT \<and> chars ! j \<noteq> COND"
    and "i0 \<le> i"
  shows "parseLine_loop chars i0 =
     Some \<lparr>node_type = token_text t, node_token = t,
           args = (if t = Assign
                   then [trim (concat (take i chars)), trim (concat (drop (Suc i) chars))]
                   else drop (Suc i) chars)\<rparr>"
  using assms
proof (induction chars i0 rule: parseLine_loop.induct)
  case (1 chars i0)
  show ?case
  proof (cases "i0 = i")
    case True
    with 1(2,3) show ?thesis
      by (subst parseLine_loop.simps)
        (simp add: find_token_text Let_def slice_def token_text_Assign)
  next
    case False
    with 1(5) have lt: "i0 < i" by simp
    with 1(4) have "find (\<lambda>t. token_text t = chars ! i0) tokens = None"
      by (simp add: find_token_None)
    moreover from lt 1(2) have "i0 < length chars" by simp
    ultimately have "parseLine_loop chars i0 = parseLine_loop chars (i0 + 1)"
      by (subst parseLine_loop.simps) simp
    moreover have "parseLine_loop chars (i0 + 1) =
       Some \<lparr>node_type = token_text t, node_token = t,
           args = (if t = Assign
                   then [trim (concat (take i chars)), trim (concat (drop (Suc i) chars))]
                   else drop (Suc i) chars)\<rparr>"
      using 1(1) [OF \<open>i0 < length chars\<close> \<open>find _ tokens = None\<close> 1(2,3)] 1(4) lt
      by simp
    ultimately show ?thesis by simp
  qed
qed

text \<open>
  C6, as the spec states it, fails: the dispatcher looks for the three tokens of
  its table only. The line \<open>"a+b"\<close> (with CONCAT for \<open>+\<close>) holds the symbol CONCAT
  and gives no node.
\<close>

theorem parseLine_other_symbol_counterexample:
  "segment [0x61, 0x2795, 0x62] = [[0x61], CONCAT, [0x62]] \<and>
   parseLine segment [0x61, 0x2795, 0x62] = None"
  by (simp add: parseLine_def parseLine_loop.simps eval_defs)

text \<open>
  C6, amended. \<open>parseLine\<close> returns no node exactly when no cluster of the line is
  the token of ASSIGN, PRINT or COND. Otherwise the node is that of the leftmost
  such cluster, at index \<open>i\<close>: for ASSIGN its arguments are the trimmed text
  before \<open>i\<close> and the trimmed text after \<open>i\<close>; for PRINT and COND they are the
  clusters after \<open>i\<close>, untrimmed.
\<close>

theorem parseLine_first_token:
  "(parseLine seg line = None \<longleftrightarrow>
      (\<forall>c \<in> set (seg line). c \<noteq> ASSIGN \<and> c \<noteq> PRINT \<and> c \<noteq> COND)) \<and>
   (\<forall>i t. i < length (seg line) \<and> seg line ! i = token_text t \<and>
        (\<forall>j < i. seg line ! j \<noteq> ASSIGN \<and> seg line ! j \<noteq> PRINT \<and> seg line ! j \<noteq> COND) \<longrightarrow>
      parseLine seg line =
        Some \<lparr>node_type = token_text t, node_token = t,
              args = (if t = Assign
                      then [trim (concat (take i (seg line))),
                            trim (concat (drop (Suc i) (seg line)))]
                      else drop (Suc i) (seg line))\<rparr>)"
proof (intro conjI allI impI)
  show "parseLine seg line = None \<longleftrightarrow>
      (\<forall>c \<in> set (seg line). c \<noteq> ASSIGN \<and> c \<noteq> PRINT \<and> c \<noteq> COND)"
    unfolding parseLine_def parseLine_loop_None by (auto simp: in_set_conv_nth)
next
  fix i t
  assume "i < length (seg line) \<and> seg line ! i = token_text t \<and>
        (\<forall>j < i. seg line ! j \<noteq> ASSIGN \<and> seg line ! j \<noteq> PRINT \<and> seg line ! j \<noteq> COND)"
  then show "parseLine seg line =
        Some \<lparr>node_type = token_text t, node_token = t,
              args = (if t = Assign
                      then [trim (concat (take i (seg line))),
                            trim (concat (drop (Suc i) (seg line)))]
                      else drop (Suc i) (seg line))\<rparr>"
    unfolding parseLine_def by (intro parseLine_loop_Some) auto
qed

text \<open>
  The lines \<open>" X:=Hi? "\<close> and \<open>"X?H:= "\<close> (with ASSIGN for \<open>:=\<close> and COND for \<open>?\<close>),
  and \<open>"XY"\<close>, which has no token.
\<close>

theorem parseLine_first_token_witness:
  "parseLine segment [0x20, 0x58, 0xD83D, 0xDC49, 0x48, 0x69, 0x2753, 0x20] =
     Some \<lparr>node_type = ASSIGN, node_token = Assign, args = [[0x58], [0x48, 0x69, 0x2753]]\<rparr> \<and>
   parseLine segment [0x58, 0x2753, 0x48, 0xD83D, 0xDC49, 0x20] =
     Some \<lparr>node_type = COND, node_token = Cond, args = [[0x48], [0xD83D, 0xDC49], [0x20]]\<rparr> \<and>
   parseLine segment [0x58, 0x59] = None"
proof -
  have s1: "segment [0x20, 0x58, 0xD83D, 0xDC49, 0x48, 0x69, 0x2753, 0x20] =
      [[0x20], [0x58], [0xD83D, 0xDC49], [0x48], [0x69], [0x2753], [0x20]]"
    by (simp add: eval_defs)
  have s2: "segment [0x58, 0x2753, 0x48, 0xD83D, 0xDC49, 0x20] =
      [[0x58], [0x2753], [0x48], [0xD83D, 0xDC49], [0x20]]"
    by (simp add: eval_defs)
  have s3: "segment [0x58, 0x59] = [[0x58], [0x59]]"
    by (simp add: eval_defs)
  have a: "parseLine segment [0x20, 0x58, 0xD83D, 0xDC49, 0x48, 0x69, 0x2753, 0x20] =
     Some \<lparr>node_type = ASSIGN, node_token = Assign, args = [[0x58], [0x48, 0x69, 0x2753]]\<rparr>"
    using parseLine_first_token [of segment "[0x20, 0x58, 0xD83D, 0xDC49, 0x48, 0x69, 0x2753, 0x20]",
        THEN conjunct2, rule_format, of "Suc (Suc 0)" Assign]
    by (simp add: s1 less_Suc_eq eval_defs)
  have b: "parseLine segment [0x58, 0x2753, 0x48, 0xD83D, 0xDC49, 0x20] =
     Some \<lparr>node_type = COND, node_token = Cond, args = [[0x48], [0xD83D, 0xDC49], [0x20]]\<rparr>"
    using parseLine_first_token [of segment "[0x58, 0x2753, 0x48, 0xD83D, 0xDC49, 0x20]",
        THEN conjunct2, rule_format, of "Suc 0" Cond]
    by (simp add: s2 less_Suc_eq eval_defs)
  have c: "parseLine segment [0x58, 0x59] = None"
    using parseLine_first_token [of segment "[0x58, 0x59]", THEN conjunct1]
    by (simp add: s3 eval_defs)
  from a b c show ?thesis by simp
qed


section \<open>Properties of the function value builder\<close>

lemma indexOf_None: "indexOf xs x = None \<longleftrightarrow> x \<notin> set xs"
  by (induction xs) auto

lemma indexOf_Some:
  "indexOf xs x = Some i \<longleftrightarrow> i < length xs \<and> xs ! i = x \<and> (\<forall>j < i. xs ! j \<noteq> x)"
proof (induction xs arbitrary: i)
  case Nil
  then show ?case by simp
next
  case (Cons y ys)
  show ?case
  proof (cases "y = x")
    case True
    then show ?thesis by (cases i) auto
  next
    case False
    show ?thesis
    proof (cases i)
      case 0
      with False show ?thesis by auto
    next
      case (Suc k)
      with False Cons [of k] show ?thesis
        by (auto simp: less_Suc_eq_0_disj nth_Cons split: nat.splits)
    qed
  qed
qed

lemma slice_nth: "b \<le> length xs \<Longrightarrow> slice xs a b = map (\<lambda>j. xs ! j) [a..<b]"
  unfolding slice_def
  by (rule nth_equalityI) (auto simp: min_def split: if_splits)


text \<open>
  C7. \<open>createFn\<close> returns \<^verbatim>\<open>false\<close> exactly when the string starts with neither
  FN_MARK nor ARROW (as \<^verbatim>\<open>startsWith\<close> tests it). It throws exactly when the
  string starts with one of them and no cluster is ARROW, and it throws nothing
  else. Otherwise, with the first ARROW cluster at index \<open>i\<close>, the parameter names
  are the clusters at the indices from \<open>1\<close> to \<open>i - 1\<close>, and the body is the text
  of the clusters after \<open>i\<close>, split on STMT_SEP.
\<close>

theorem createFn_cases:
  "(createFn seg raw = Inr None \<longleftrightarrow> \<not> (startsWith raw FN_MARK \<or> startsWith raw ARROW)) \<and>
   (createFn seg raw = Inl MalformedFunctionLiteral \<longleftrightarrow>
      (startsWith raw FN_MARK \<or> startsWith raw ARROW) \<and> ARROW \<notin> set (seg raw)) \<and>
   (\<forall>e. createFn seg raw = Inl e \<longrightarrow> e = MalformedFunctionLiteral) \<and>
   (\<forall>i. (startsWith raw FN_MARK \<or> startsWith raw ARROW) \<and>
        i < length (seg raw) \<and> seg raw ! i = ARROW \<and> (\<forall>j < i. seg raw ! j \<noteq> ARROW) \<longrightarrow>
      createFn seg raw =
        Inr (Some \<lparr>argNames = map (\<lambda>j. seg raw ! j) [1..<i],
                   body = split (concat (drop (Suc i) (seg raw))) STMT_SEP\<rparr>))"
proof (intro conjI allI impI)
  show "createFn seg raw = Inr None \<longleftrightarrow> \<not> (startsWith raw FN_MARK \<or> startsWith raw ARROW)"
    by (auto simp: createFn_def Let_def split: option.splits)
  show "createFn seg raw = Inl MalformedFunctionLiteral \<longleftrightarrow>
      (startsWith raw FN_MARK \<or> startsWith raw ARROW) \<and> ARROW \<notin> set (seg raw)"
    by (auto simp: createFn_def Let_def indexOf_None [symmetric] split: option.splits)
  show "e = MalformedFunctionLiteral" if "createFn seg raw = Inl e" for e
    using that by (auto simp: createFn_def Let_def split: option.splits if_splits)
  show "createFn seg raw =
        Inr (Some \<lparr>argNames = map (\<lambda>j. seg raw ! j) [1..<i],
                   body = split (concat (drop (Suc i) (seg raw))) STMT_SEP\<rparr>)"
    if h: "(startsWith raw FN_MARK \<or> startsWith raw ARROW) \<and>
        i < length (seg raw) \<and> seg raw ! i = ARROW \<and> (\<forall>j < i. seg raw ! j \<noteq> ARROW)" for i
  proof -
    from h have "indexOf (seg raw) ARROW = Some i" by (simp add: indexOf_Some)
    with h show ?thesis by (simp add: createFn_def Let_def slice_nth)
  qed
qed

text \<open>
  The strings \<open>"#PQ>a;b"\<close> (with FN_MARK for \<open>#\<close>, ARROW for \<open>>\<close> and STMT_SEP for
  \<open>;\<close>), \<open>"x"\<close> and \<open>"#x"\<close>.
\<close>

theorem createFn_cases_witness:
  "createFn segment [0xD83D, 0xDD27, 0x50, 0x51, 0x25B6, 0xFE0F, 0x61, 0xD83E, 0xDEF7, 0x62] =
     Inr (Some \<lparr>argNames = [[0x50], [0x51]], body = [[0x61], [0x62]]\<rparr>) \<and>
   createFn segment [0x78] = Inr None \<and>
   createFn segment [0xD83D, 0xDD27, 0x78] = Inl MalformedFunctionLiteral"
proof -
  have s1: "segment [0xD83D, 0xDD27, 0x50, 0x51, 0x25B6, 0xFE0F, 0x61, 0xD83E, 0xDEF7, 0x62] =
     [[0xD83D, 0xDD27], [0x50], [0x51], [0x25B6, 0xFE0F], [0x61], [0xD83E, 0xDEF7], [0x62]]"
    by (simp add: eval_defs)
  have s3: "segment [0xD83D, 0xDD27, 0x78] = [[0xD83D, 0xDD27], [0x78]]"
    by (simp add: eval_defs)
  have a: "createFn segment [0xD83D, 0xDD27, 0x50, 0x51, 0x25B6, 0xFE0F, 0x61, 0xD83E, 0xDEF7, 0x62] =
     Inr (Some \<lparr>argNames = [[0x50], [0x51]], body = [[0x61], [0x62]]\<rparr>)"
    using createFn_cases [of segment
        "[0xD83D, 0xDD27, 0x50, 0x51, 0x25B6, 0xFE0F, 0x61, 0xD83E, 0xDEF7, 0x62]",
        THEN conjunct2, THEN conjunct2, THEN conjunct2, rule_format, of "Suc (Suc (Suc 0))"]
    by (simp add: s1 less_Suc_eq eval_defs upt_rec)
  have b: "createFn segment [0x78] = Inr None"
    using createFn_cases [of segment "[0x78]", THEN conjunct1] by (simp add: eval_defs)
  have d: "createFn segment [0xD83D, 0xDD27, 0x78] = Inl MalformedFunctionLiteral"
    using createFn_cases [of segment "[0xD83D, 0xDD27, 0x78]", THEN conjunct2, THEN conjunct1]
    by (simp add: s3 eval_defs)
  from a b d show ?thesis by simp
qed


section \<open>Properties of the function call\<close>

lemma interpret_line_call:
  assumes "trim line \<noteq> []" and "parseLine seg (trim line) = None"
    and "seg (trim line) = fnName # argsPassed"
    and "get (varMap st) fnName = Some (Fn fnValue)"
  shows "interpret_line seg run line st = call_fn run (Some fnName) fnValue argsPassed st"
  using assms by (simp add: interpret_line_def Let_def)

text \<open>
  C8, as the spec states it, fails in the direction "an arity error only if an
  argument was supplied". The program \<open>"F:=>FX"\<close> (with ASSIGN for \<open>:=\<close> and ARROW
  for \<open>>\<close>) leaves \<open>state_self\<close>; there the line \<open>"F"\<close> is a call of a function
  without parameters, no cluster follows the name, and the run throws the arity
  error, raised by the call \<open>"FX"\<close> in the body.
\<close>

theorem zero_parameter_call_nested_counterexample:
  "interpret_fn segment (Suc (Suc 0))
     [[0x46, 0xD83D, 0xDC49, 0x25B6, 0xFE0F, 0x46, 0x58]] initial_state = Some (Inr state_self) \<and>
   trim [0x46] = [0x46] \<and>
   parseLine segment [0x46] = None \<and>
   segment [0x46] = [[0x46]] \<and>
   get (varMap state_self) [0x46] = Some (Fn \<lparr>argNames = [], body = [[0x46, 0x58]]\<rparr>) \<and>
   interpret_fn segment (Suc (Suc 0)) [[0x46]] state_self =
     Some (Inl (ArityMismatch (Some [0x46]), []))"
  by (simp add: state_self_def eval_defs run_defs)

text \<open>
  C8, amended. A line that is a call (no token in it) of a name bound to a
  function without parameters: when clusters follow the name, the call throws
  the arity error before the body runs, whatever the fuel; when none follows,
  the body is run on a child of the current environment, and what the body
  throws or returns (an arity error of a call inside it included) is what the
  call throws or returns. So the call throws the arity error whatever its body
  does exactly when at least one cluster follows the name.
\<close>

theorem zero_parameter_call:
  assumes "trim line \<noteq> []" and "parseLine seg (trim line) = None"
    and "seg (trim line) = fnName # argsPassed"
    and "get (varMap st) fnName = Some (Fn fnValue)"
    and "argNames fnValue = []"
  shows "(argsPassed \<noteq> [] \<longrightarrow>
            interpret_fn seg (Suc fuel) (line # rest) st =
              Some (Inl (ArityMismatch (Some fnName), console st))) \<and>
         (argsPassed = [] \<longrightarrow>
            interpret_fn seg (Suc fuel) (line # rest) st =
              (case interpret_fn seg fuel (body fnValue) (st\<lparr>varMap := createChild (varMap st)\<rparr>) of
                 None \<Rightarrow> None
               | Some (Inl e) \<Rightarrow> Some (Inl e)
               | Some (Inr st') \<Rightarrow>
                   interpret_fn seg (Suc fuel) rest
                     (st'\<lparr>varMap := after_call (varMap st) (varMap st')\<rparr>))) \<and>
         ((\<forall>run. interpret_line seg run line st =
                  Some (Inl (ArityMismatch (Some fnName), console st))) \<longleftrightarrow>
          argsPassed \<noteq> [])"
proof (intro conjI)
  show "argsPassed \<noteq> [] \<longrightarrow>
            interpret_fn seg (Suc fuel) (line # rest) st =
              Some (Inl (ArityMismatch (Some fnName), console st))"
    using assms(5)
    by (auto simp: interpret_line_call [OF assms(1-4)] call_fn_def)
  show "argsPassed = [] \<longrightarrow>
            interpret_fn seg (Suc fuel) (line # rest) st =
              (case interpret_fn seg fuel (body fnValue) (st\<lparr>varMap := createChild (varMap st)\<rparr>) of
                 None \<Rightarrow> None
               | Some (Inl e) \<Rightarrow> Some (Inl e)
               | Some (Inr st') \<Rightarrow>
                   interpret_fn seg (Suc fuel) rest
                     (st'\<lparr>varMap := after_call (varMap st) (varMap st')\<rparr>))"
    using assms(5)
    by (auto simp: interpret_line_call [OF assms(1-4)] call_fn_def
        split: option.splits sum.splits)
  show "(\<forall>run. interpret_line seg run line st =
                  Some (Inl (ArityMismatch (Some fnName), console st))) \<longleftrightarrow>
          argsPassed \<noteq> []"
  proof
    assume all: "\<forall>run. interpret_line seg run line st =
                  Some (Inl (ArityMismatch (Some fnName), console st))"
    show "argsPassed \<noteq> []"
    proof
      assume "argsPassed = []"
      with assms(5) have "interpret_line seg (\<lambda>_ _. None) line st = None"
        by (simp add: interpret_line_call [OF assms(1-4)] call_fn_def)
      with all show False by simp
    qed
  next
    assume "argsPassed \<noteq> []"
    with assms(5) show "\<forall>run. interpret_line seg run line st =
                  Some (Inl (ArityMismatch (Some fnName), console st))"
      by (simp add: interpret_line_call [OF assms(1-4)] call_fn_def)
  qed
qed

text \<open>
  In \<open>state_zero\<close> the line \<open>"FX"\<close> throws, also when no body can run, and the line
  \<open>"F"\<close> prints \<open>Hi\<close>.
\<close>

theorem zero_parameter_call_witness:
  "interpret_fn segment (Suc (Suc 0)) [[0x46, 0x58]] state_zero =
     Some (Inl (ArityMismatch (Some [0x46]), [])) \<and>
   interpret_fn segment (Suc (Suc 0)) [[0x46]] state_zero =
     Some (Inr (state_zero\<lparr>console := [[0x48, 0x69]]\<rparr>)) \<and>
   interpret_line segment (interpret_fn segment 0) [0x46, 0x58] state_zero =
     Some (Inl (ArityMismatch (Some [0x46]), []))"
proof -
  let ?f = "\<lparr>argNames = [], body = [[0xD83D, 0xDDE3, 0xFE0F, 0x48, 0x69]]\<rparr>"
  have t1: "trim [0x46, 0x58] \<noteq> []" and t2: "trim [0x46] \<noteq> []"
    by (simp_all add: eval_defs)
  have p1: "parseLine segment (trim [0x46, 0x58]) = None"
    and p2: "parseLine segment (trim [0x46]) = None"
    by (simp_all add: eval_defs run_defs)
  have s1: "segment (trim [0x46, 0x58]) = [0x46] # [[0x58]]"
    and s2: "segment (trim [0x46]) = [0x46] # []"
    by (simp_all add: eval_defs)
  have g: "get (varMap state_zero) [0x46] = Some (Fn ?f)"
    by (simp add: state_zero_def)
  have a: "argNames ?f = []" by simp
  note c1 = zero_parameter_call [OF t1 p1 s1 g a, of "Suc 0" "[]"]
  note c2 = zero_parameter_call [OF t2 p2 s2 g a, of "Suc 0" "[]"]
  from c1 have x: "interpret_line segment (interpret_fn segment 0) [0x46, 0x58] state_zero =
     Some (Inl (ArityMismatch (Some [0x46]), []))"
    by (simp add: state_zero_def)
  from c1 c2 have "interpret_fn segment (Suc (Suc 0)) [[0x46, 0x58]] state_zero =
     Some (Inl (ArityMismatch (Some [0x46]), [])) \<and>
   interpret_fn segment (Suc (Suc 0)) [[0x46]] state_zero =
     Some (Inr (state_zero\<lparr>console := [[0x48, 0x69]]\<rparr>))"
    by (simp add: state_zero_def eval_defs run_defs)
  with x show ?thesis by simp
qed







section \<open>Scopes of calls and conditionals\<close>

text \<open>
  \<open>set\<close> on a scope made by \<^verbatim>\<open>createChild()\<close> or by \<^verbatim>\<open>new ScopedMap(varMap)\<close> always
  sets in the enclosing environment: the fresh local map has no key, so \<open>set\<close>
  goes to the parent, and the scope of a conditional has the environment itself
  as its local map.
\<close>

lemma set_var_createChild:
  "set_var (createChild env) key v = ScopedMap (LocalMap []) (Some (set_var env key v))"
  by (simp add: createChild_def)

lemma bind_args_createChild:
  "bind_args names argsPassed i (ScopedMap (LocalMap []) (Some env)) =
   ScopedMap (LocalMap []) (Some (bind_args names argsPassed i env))"
  by (induction names argsPassed i env rule: bind_args.induct) auto

lemma set_var_block:
  "set_var (ScopedMap (LocalScoped env) None) key v = ScopedMap (LocalScoped (set_var env key v)) None"
  by simp

text \<open>
  C1. The claim: in the child scope of a call or of a conditional, assigning to a
  name bound in an ancestor changes the ancestor's binding, and assigning to a
  new name leaves every ancestor without a binding for it once the child scope
  is discarded. The first half holds (\<open>set_var_createChild\<close>, \<open>set_var_block\<close>,
  \<open>get_set_var\<close>). The second half fails: after the programs \<open>"F:=>N:=v"\<close>, \<open>"F"\<close>
  and \<open>"?a=a>N:=v"\<close> (with the symbols ASSIGN, ARROW, COND, EQUALS for \<open>:=\<close>, \<open>>\<close>,
  \<open>?\<close>, \<open>=\<close>) the root environment binds \<open>N\<close> to \<open>"v"\<close>.
\<close>

theorem new_name_in_child_scope_reaches_root:
  "interpret_fn segment (Suc (Suc 0))
     [[0x46, 0xD83D, 0xDC49, 0x25B6, 0xFE0F, 0x4E, 0xD83D, 0xDC49, 0x76], [0x46]] initial_state =
   Some (Inr \<lparr>varMap = ScopedMap (LocalMap
            [([0x46], Fn \<lparr>argNames = [], body = [[0x4E, 0xD83D, 0xDC49, 0x76]]\<rparr>),
             ([0x4E], Str [0x76])]) None,
          console = []\<rparr>) \<and>
   interpret_fn segment (Suc (Suc 0))
     [[0x2753, 0x61, 0xD83D, 0xDFF0, 0x61, 0x25B6, 0xFE0F, 0x4E, 0xD83D, 0xDC49, 0x76]] initial_state =
   Some (Inr \<lparr>varMap = ScopedMap (LocalMap [([0x4E], Str [0x76])]) None, console = []\<rparr>)"
  by (simp add: eval_defs run_defs)

text \<open>
  C2. The claim: a call binds its parameters in a child environment, and the
  bindings are gone when the call returns. The body does read each parameter as
  its argument, but the binding is made in the caller's chain: after the program
  \<open>"F:=#P>!P"\<close>, \<open>"FX"\<close> (with ASSIGN, FN_MARK, ARROW, PRINT for \<open>:=\<close>, \<open>#\<close>, \<open>>\<close>,
  \<open>!\<close>) the root environment binds \<open>P\<close> to \<open>"X"\<close>.
\<close>

theorem parameter_binding_reaches_root:
  "interpret_fn segment (Suc (Suc 0))
     [[0x46, 0xD83D, 0xDC49, 0xD83D, 0xDD27, 0x50, 0x25B6, 0xFE0F, 0xD83D, 0xDDE3, 0xFE0F, 0x50],
      [0x46, 0x58]] initial_state =
   Some (Inr \<lparr>varMap = ScopedMap (LocalMap
            [([0x46], Fn \<lparr>argNames = [[0x50]], body = [[0xD83D, 0xDDE3, 0xFE0F, 0x50]]\<rparr>),
             ([0x50], Str [0x58])]) None,
          console = [[0x58]]\<rparr>)"
  by (simp add: eval_defs run_defs)

section \<open>Properties of the interpreter as a whole\<close>

text \<open>
  A run keeps the shape of its environment. So the scope a call ran on still has
  its parent when the call returns, and the scope of a conditional still has the
  environment as its local map: \<open>after_call\<close> and \<open>after_block\<close> always find the
  caller's environment there.
\<close>

lemma skel_set_var:
  "skel_of (set_var s key v) = skel_of s"
  "lskel_of (local_set l key v) = lskel_of l"
  by (induction s key v and l key v rule: set_var_local_set.induct)
    (auto simp: option.map_comp comp_def cong: option.map_cong)

lemma skel_bind_args: "skel_of (bind_args names argsPassed i scoped) = skel_of scoped"
  by (induction names argsPassed i scoped rule: bind_args.induct) (auto simp: skel_set_var)

lemma after_block_skel:
  assumes "skel_of scoped = skel_of (ScopedMap (LocalScoped vm) None)"
  shows "scoped = ScopedMap (LocalScoped (after_block vm scoped)) None \<and>
         skel_of (after_block vm scoped) = skel_of vm"
proof (cases scoped)
  case (ScopedMap l p)
  with assms show ?thesis by (cases l) (auto simp: after_block_def)
qed

lemma after_call_skel:
  assumes "skel_of scoped = skel_of (createChild vm)"
  shows "parent scoped = Some (after_call vm scoped) \<and> skel_of (after_call vm scoped) = skel_of vm"
proof (cases scoped)
  case (ScopedMap l p)
  with assms show ?thesis by (cases p) (auto simp: after_call_def createChild_def)
qed

lemma evaluate_skel:
  assumes "keeps_shape run" and "evaluate seg run t as st = Some (Inr st')"
  shows "skel_of (varMap st') = skel_of (varMap st)"
proof (cases t)
  case Assign
  with assms(2) show ?thesis
    by (auto simp: evaluate_assign_def skel_set_var
        split: list.splits if_splits sum.splits option.splits)
next
  case Print
  with assms(2) show ?thesis
    by (auto simp: evaluate_print_def split: option.splits)
next
  case Cond
  with assms(2) have "st' = st \<or>
      (\<exists>b s'. run b (st\<lparr>varMap := ScopedMap (LocalScoped (varMap st)) None\<rparr>) = Some (Inr s') \<and>
         st' = s'\<lparr>varMap := after_block (varMap st) (varMap s')\<rparr>)"
    by (auto simp: evaluate_cond_def Let_def
        split: list.splits if_splits sum.splits option.splits)
  then show ?thesis
  proof
    assume "st' = st"
    then show ?thesis by simp
  next
    assume "\<exists>b s'. run b (st\<lparr>varMap := ScopedMap (LocalScoped (varMap st)) None\<rparr>) = Some (Inr s') \<and>
         st' = s'\<lparr>varMap := after_block (varMap st) (varMap s')\<rparr>"
    then obtain b s' where
      r: "run b (st\<lparr>varMap := ScopedMap (LocalScoped (varMap st)) None\<rparr>) = Some (Inr s')"
      and s: "st' = s'\<lparr>varMap := after_block (varMap st) (varMap s')\<rparr>" by blast
    from assms(1) r have "skel_of (varMap s') = skel_of (ScopedMap (LocalScoped (varMap st)) None)"
      unfolding keeps_shape_def by fastforce
    from after_block_skel [OF this] s show ?thesis by simp
  qed
qed

lemma call_fn_skel:
  assumes "keeps_shape run" and "call_fn run fnName fnValue argsPassed st = Some (Inr st')"
  shows "skel_of (varMap st') = skel_of (varMap st)"
proof -
  from assms(2) obtain s' where
    r: "run (body fnValue)
          (st\<lparr>varMap := bind_args (argNames fnValue) argsPassed 0 (createChild (varMap st))\<rparr>) =
        Some (Inr s')"
    and s: "st' = s'\<lparr>varMap := after_call (varMap st) (varMap s')\<rparr>"
    by (auto simp: call_fn_def Let_def split: if_splits sum.splits option.splits)
  from assms(1) r have "skel_of (varMap s') = skel_of (createChild (varMap st))"
    unfolding keeps_shape_def by (fastforce simp: skel_bind_args)
  from after_call_skel [OF this] s show ?thesis by simp
qed

lemma interpret_line_skel:
  assumes "keeps_shape run" and "interpret_line seg run line st = Some (Inr st')"
  shows "skel_of (varMap st') = skel_of (varMap st)"
  using assms(2) evaluate_skel [OF assms(1)] call_fn_skel [OF assms(1)]
  by (auto simp: interpret_line_def Let_def
      split: if_splits option.splits var_value.splits)

lemma interpret_lines_skel:
  assumes "keeps_shape run"
  shows "interpret_lines seg run lines st = Some (Inr st') \<Longrightarrow>
         skel_of (varMap st') = skel_of (varMap st)"
proof (induction lines arbitrary: st)
  case Nil
  then show ?case by simp
next
  case (Cons line lines)
  from Cons.prems obtain s1 where
    l: "interpret_line seg run line st = Some (Inr s1)"
    and r: "interpret_lines seg run lines s1 = Some (Inr st')"
    by (auto split: option.splits sum.splits)
  from interpret_line_skel [OF assms l] Cons.IH [OF r] show ?case by simp
qed

lemma interpret_fn_keeps_shape: "keeps_shape (interpret_fn seg fuel)"
proof (induction fuel)
  case 0
  then show ?case by (simp add: keeps_shape_def)
next
  case (Suc fuel)
  then show ?case
    unfolding keeps_shape_def [of "interpret_fn seg (Suc fuel)"]
    by (auto dest: interpret_lines_skel)
qed

text \<open>More fuel never changes what a run gives.\<close>

lemma evaluate_extends:
  assumes "extends run run'" and "evaluate seg run t as st = Some r"
  shows "evaluate seg run' t as st = Some r"
proof (cases t)
  case Cond
  with assms show ?thesis
    unfolding extends_def
    by (auto simp: evaluate_cond_def Let_def split: option.splits sum.splits if_splits)
qed (use assms in auto)

lemma call_fn_extends:
  assumes "extends run run'" and "call_fn run fnName fnValue argsPassed st = Some r"
  shows "call_fn run' fnName fnValue argsPassed st = Some r"
  using assms unfolding extends_def
  by (auto simp: call_fn_def Let_def split: option.splits sum.splits if_splits)

lemma interpret_line_extends:
  assumes "extends run run'" and "interpret_line seg run line st = Some r"
  shows "interpret_line seg run' line st = Some r"
  using assms(2) evaluate_extends [OF assms(1)] call_fn_extends [OF assms(1)]
  by (auto simp: interpret_line_def Let_def split: if_splits option.splits var_value.splits)

lemma interpret_lines_extends:
  assumes "extends run run'"
  shows "interpret_lines seg run lines st = Some r \<Longrightarrow> interpret_lines seg run' lines st = Some r"
proof (induction lines arbitrary: st)
  case Nil
  then show ?case by simp
next
  case (Cons line lines)
  then show ?case
    using interpret_line_extends [OF assms, of seg line st]
    by (auto split: option.splits sum.splits)
qed

lemma interpret_fn_Suc: "extends (interpret_fn seg fuel) (interpret_fn seg (Suc fuel))"
proof (induction fuel)
  case 0
  then show ?case by (simp add: extends_def)
next
  case (Suc fuel)
  show ?case
    unfolding extends_def
  proof (intro allI impI)
    fix lines st r
    assume "interpret_fn seg (Suc fuel) lines st = Some r"
    then have "interpret_lines seg (interpret_fn seg fuel) lines st = Some r"
      by (simp only: interpret_fn.simps)
    then have "interpret_lines seg (interpret_fn seg (Suc fuel)) lines st = Some r"
      by (rule interpret_lines_extends [OF Suc])
    then show "interpret_fn seg (Suc (Suc fuel)) lines st = Some r"
      by (simp only: interpret_fn.simps)
  qed
qed

lemma interpret_fn_more_fuel:
  "interpret_fn seg fuel lines st = Some r \<Longrightarrow> fuel \<le> fuel' \<Longrightarrow>
   interpret_fn seg fuel' lines st = Some r"
proof (induction fuel' arbitrary: )
  case 0
  then show ?case by simp
next
  case (Suc fuel')
  show ?case
  proof (cases "fuel = Suc fuel'")
    case True
    with Suc.prems show ?thesis by simp
  next
    case False
    with Suc have "interpret_fn seg fuel' lines st = Some r" by simp
    with interpret_fn_Suc [of seg fuel'] show ?thesis by (simp add: extends_def)
  qed
qed

end
